theory Spec2Isabelle
  imports Main "HOL-Library.Char_ord" "HOL-Library.List_Lexorder"
begin

section \<open>Data model (src/types.ts)\<close>

text \<open>
  \<^verbatim>\<open>enum InviteStatus { NONE = 'none', PENDING = 'pending', USED = 'used' }\<close> and
  \<^verbatim>\<open>interface Invite { id; secret; signer; status; updateDate }\<close>.
  The column \<open>id\<close> is written \<open>id'\<close> (\<open>id\<close> is the identity function of HOL).
  \<open>updateDate\<close> is the text that SQLite's \<^verbatim>\<open>datetime('now')\<close> produces; texts are
  compared as SQLite's default collation does, byte by byte, which is the lexicographic
  order on \<open>string\<close>.
\<close>

datatype InviteStatus = NONE | PENDING | USED

record Invite =
  id' :: nat
  secret :: string
  signer :: string
  status :: InviteStatus
  updateDate :: string

text \<open>A thrown JavaScript \<^verbatim>\<open>Error\<close>, with its message.\<close>

datatype exn = Error string

fun message :: "exn \<Rightarrow> string" where
  "message (Error m) = m"

section \<open>The invites table (src/database.ts)\<close>

text \<open>
  The table \<^verbatim>\<open>invites\<close> is the list of its rows in rowid order. It has
  \<^verbatim>\<open>id INTEGER PRIMARY KEY AUTOINCREMENT\<close> and \<^verbatim>\<open>secret TEXT NOT NULL UNIQUE\<close>; no
  statement of the program deletes a row, so the next rowid is one more than the largest
  one present.
\<close>

type_synonym table = "Invite list"

definition next_rowid :: "table \<Rightarrow> nat" where
  "next_rowid rows = Suc (foldr max (map id' rows) 0)"

text \<open>
  \<^verbatim>\<open>SELECT ... ORDER BY k ASC LIMIT 1\<close>: a row whose key is least, if there is a row.
  SQLite leaves the choice among rows with equal keys open; the model takes the first of
  them in rowid order.
\<close>

fun order_by_limit1 :: "('a \<Rightarrow> 'k::linorder) \<Rightarrow> 'a list \<Rightarrow> 'a option" where
  "order_by_limit1 k [] = None"
| "order_by_limit1 k (x # xs) =
     (case order_by_limit1 k xs of
        None \<Rightarrow> Some x
      | Some y \<Rightarrow> if k x \<le> k y then Some x else Some y)"

definition getInviteById :: "nat \<Rightarrow> table \<Rightarrow> exn + Invite" where
  "getInviteById i rows =
     (case find (\<lambda>r. id' r = i) rows of
        None \<Rightarrow> Inl (Error ''Invite not found'')
      | Some row \<Rightarrow> Inr row)"

definition getInviteBySecret :: "string \<Rightarrow> table \<Rightarrow> Invite option" where
  "getInviteBySecret sec rows = find (\<lambda>r. secret r = sec) rows"

definition updateInviteStatus :: "nat \<Rightarrow> InviteStatus \<Rightarrow> string \<Rightarrow> table \<Rightarrow> table" where
  "updateInviteStatus i st now rows =
     map (\<lambda>r. if id' r = i then r\<lparr>status := st, updateDate := now\<rparr> else r) rows"

text \<open>
  \<open>addInvite\<close>: the INSERT raises when the UNIQUE constraint on \<open>secret\<close> fails, and the
  statement leaves the table as it was; otherwise the new row is read back by its rowid.
  Every function on the table returns the table it leaves behind next to its result.
\<close>

definition addInvite :: "string \<Rightarrow> string \<Rightarrow> string \<Rightarrow> table \<Rightarrow> (exn + Invite) \<times> table" where
  "addInvite sec sgnr now rows =
     (if sec \<in> set (map secret rows)
      then (Inl (Error ''UNIQUE constraint failed: invites.secret''), rows)
      else
        let rid = next_rowid rows;
            rows' = rows @ [\<lparr>id' = rid, secret = sec, signer = sgnr,
                             status = NONE, updateDate = now\<rparr>]
        in (getInviteById rid rows', rows'))"

definition getNextInvite :: "string \<Rightarrow> table \<Rightarrow> (exn + Invite option) \<times> table" where
  "getNextInvite now rows =
     (case order_by_limit1 id' (filter (\<lambda>r. status r = NONE) rows) of
        Some noneRow \<Rightarrow>
          let rows' = updateInviteStatus (id' noneRow) PENDING now rows
          in (case getInviteById (id' noneRow) rows' of
                Inl e \<Rightarrow> (Inl e, rows')
              | Inr row \<Rightarrow> (Inr (Some row), rows'))
      | None \<Rightarrow>
          (case order_by_limit1 updateDate (filter (\<lambda>r. status r = PENDING) rows) of
             None \<Rightarrow> (Inr None, rows)
           | Some pendingRow \<Rightarrow> (Inr (Some pendingRow), rows)))"

definition markInviteAsUsed :: "string \<Rightarrow> string \<Rightarrow> table \<Rightarrow> bool \<times> table" where
  "markInviteAsUsed sec now rows =
     (case getInviteBySecret sec rows of
        None \<Rightarrow> (False, rows)
      | Some invite \<Rightarrow> (True, updateInviteStatus (id' invite) USED now rows))"

record InviteStats =
  total :: int
  used :: int
  pending :: int
  available :: int

definition count_status :: "InviteStatus \<Rightarrow> table \<Rightarrow> int" where
  "count_status st rows = int (length (filter (\<lambda>r. status r = st) rows))"

definition getInviteStats :: "table \<Rightarrow> InviteStats" where
  "getInviteStats rows =
     (let total = int (length rows);
          used = count_status USED rows;
          pending = count_status PENDING rows;
          available = total - used - pending
      in \<lparr>total = total, used = used, pending = pending, available = available\<rparr>)"

section \<open>The chain oracle adapter (contract.ts)\<close>

text \<open>
  JavaScript string helpers, on ASCII: \<^verbatim>\<open>toLowerCase\<close>, \<^verbatim>\<open>startsWith\<close>, \<^verbatim>\<open>includes\<close>.
\<close>

definition toLowerCase_char :: "char \<Rightarrow> char" where
  "toLowerCase_char c =
     (if CHR ''A'' \<le> c \<and> c \<le> CHR ''Z'' then char_of (of_char c + (32::nat)) else c)"

definition toLowerCase :: "string \<Rightarrow> string" where
  "toLowerCase s = map toLowerCase_char s"

definition startsWith :: "string \<Rightarrow> string \<Rightarrow> bool" where
  "startsWith s p = (take (length p) s = p)"

fun includes_str :: "string \<Rightarrow> string \<Rightarrow> bool" where
  "includes_str [] p = (p = [])"
| "includes_str (c # cs) p = (startsWith (c # cs) p \<or> includes_str cs p)"

record ChainData =
  account :: string
  claimed :: bool

definition zero_address :: string where
  "zero_address = ''0x0000000000000000000000000000000000000000''"

definition not_claimed :: ChainData where
  "not_claimed = \<lparr>account = zero_address, claimed = False\<rparr>"

text \<open>
  The three functions of the viem library that \<open>checkInviteOnChain\<close> calls are
  parameters: each may throw (\<open>Inl\<close>). \<open>call v n d\<close> is the outcome of the
  \<^verbatim>\<open>eth_call\<close> request with data \<open>d\<close> when \<open>n\<close> requests have been sent before it;
  its value is the field \<^verbatim>\<open>result.data\<close>, which may be undefined (\<open>None\<close>).
\<close>

record viem =
  encodeFunctionData :: "string \<Rightarrow> exn + string"
  call :: "nat \<Rightarrow> string \<Rightarrow> exn + string option"
  decodeAbiParameters :: "string \<Rightarrow> exn + string \<times> bool"

text \<open>
  The body of the \<^verbatim>\<open>try\<close> block of \<open>checkInviteOnChain\<close>, whose first line computes
  \<open>signerAddress\<close>. The second component counts the \<^verbatim>\<open>eth_call\<close> requests sent so far.
\<close>

definition signerAddress :: "string \<Rightarrow> string" where
  "signerAddress sgnr = (if startsWith (toLowerCase sgnr) ''0x'' then sgnr else ''0x'' @ sgnr)"

definition checkInviteOnChain_try :: "viem \<Rightarrow> string \<Rightarrow> nat \<Rightarrow> (exn + ChainData) \<times> nat" where
  "checkInviteOnChain_try v sgnr n =
     (case encodeFunctionData v (signerAddress sgnr) of
           Inl e \<Rightarrow> (Inl e, n)
         | Inr encodedData \<Rightarrow>
             (case call v n encodedData of
                Inl e \<Rightarrow> (Inl e, Suc n)
              | Inr None \<Rightarrow> (Inr not_claimed, Suc n)
              | Inr (Some d) \<Rightarrow>
                  if d = [] then (Inr not_claimed, Suc n)
                  else
                    (case decodeAbiParameters v d of
                       Inl e \<Rightarrow> (Inl e, Suc n)
                     | Inr (a, c) \<Rightarrow> (Inr \<lparr>account = a, claimed = c\<rparr>, Suc n))))"

text \<open>
  \<open>checkInviteOnChain\<close>: the \<^verbatim>\<open>catch\<close> clause turns every error of the body into the
  value \<open>not_claimed\<close>. The result is a sum because the function is \<^verbatim>\<open>async\<close>: \<open>Inl\<close>
  would be a rejected promise.
\<close>

definition checkInviteOnChain :: "viem \<Rightarrow> string \<Rightarrow> nat \<Rightarrow> (exn + ChainData) \<times> nat" where
  "checkInviteOnChain v sgnr n =
     (case checkInviteOnChain_try v sgnr n of
        (Inl e, n') \<Rightarrow> (Inr not_claimed, n')
      | (Inr chainData, n') \<Rightarrow> (Inr chainData, n'))"

section \<open>The routes (routes/invites.ts)\<close>

text \<open>
  The state of the service: the table and the number of \<^verbatim>\<open>eth_call\<close> requests sent.
  A response is its HTTP status and its JSON body. A field of a request body may be absent.
\<close>

record world =
  invites :: table
  eth_calls :: nat

datatype body = ErrorJson string | InviteJson Invite | CheckJson bool Invite

datatype response = Response nat body

definition body_field :: "string option \<Rightarrow> string" where
  "body_field f = (case f of None \<Rightarrow> [] | Some s \<Rightarrow> s)"

text \<open>
  The tests \<^verbatim>\<open>/^(0x)?[0-9a-fA-F]+$/\<close> and \<^verbatim>\<open>/^(0x)?[0-9a-fA-F]{40}$/\<close>.
\<close>

definition hex_digit :: "char \<Rightarrow> bool" where
  "hex_digit c = (c \<in> set ''0123456789abcdefABCDEF'')"

definition test_hex :: "string \<Rightarrow> bool" where
  "test_hex s =
     ((s \<noteq> [] \<and> list_all hex_digit s)
      \<or> (startsWith s ''0x'' \<and> drop 2 s \<noteq> [] \<and> list_all hex_digit (drop 2 s)))"

definition test_address :: "string \<Rightarrow> bool" where
  "test_address s =
     ((length s = 40 \<and> list_all hex_digit s)
      \<or> (startsWith s ''0x'' \<and> length (drop 2 s) = 40 \<and> list_all hex_digit (drop 2 s)))"

text \<open>The \<^verbatim>\<open>catch\<close> clause of the addInvite route.\<close>

definition addInvite_catch :: "exn \<Rightarrow> response" where
  "addInvite_catch e =
     (if includes_str (message e) ''UNIQUE constraint failed''
      then Response 409 (ErrorJson ''Secret already exists'')
      else Response 500 (ErrorJson ''Internal server error''))"

text \<open>
  POST /addInvite. \<open>verifySecretMatchesAddress\<close> is imported from contract.js and is a
  parameter; it may throw.
\<close>

definition addInvite_route ::
  "viem \<Rightarrow> (string \<Rightarrow> string \<Rightarrow> exn + bool) \<Rightarrow> string option \<Rightarrow> string option \<Rightarrow> string
     \<Rightarrow> world \<Rightarrow> response \<times> world" where
  "addInvite_route v verifySecretMatchesAddress secret_f address_f now w =
     (let sec = body_field secret_f; address = body_field address_f in
      if sec = [] then (Response 400 (ErrorJson ''Secret is required''), w)
      else if address = [] then (Response 400 (ErrorJson ''Address is required''), w)
      else if \<not> test_hex sec
        then (Response 400 (ErrorJson ''Secret must be a valid hex string''), w)
      else if \<not> test_address address
        then (Response 400 (ErrorJson ''Address must be a valid Ethereum address''), w)
      else
        (case verifySecretMatchesAddress sec address of
           Inl e \<Rightarrow> (addInvite_catch e, w)
         | Inr matches \<Rightarrow>
             if \<not> matches
             then (Response 400
                     (ErrorJson ''Secret does not correspond to the provided address''), w)
             else
               (case checkInviteOnChain v address (eth_calls w) of
                  (Inl e, n1) \<Rightarrow> (addInvite_catch e, w\<lparr>eth_calls := n1\<rparr>)
                | (Inr chainData, n1) \<Rightarrow>
                    if account chainData = zero_address
                    then (Response 400 (ErrorJson ''Address does not exist on the contract''),
                          w\<lparr>eth_calls := n1\<rparr>)
                    else if claimed chainData
                    then (Response 400 (ErrorJson ''Address has already been used''),
                          w\<lparr>eth_calls := n1\<rparr>)
                    else
                      (case addInvite sec address now (invites w) of
                         (Inl e, rows1) \<Rightarrow>
                           (addInvite_catch e, \<lparr>invites = rows1, eth_calls = n1\<rparr>)
                       | (Inr invite, rows1) \<Rightarrow>
                           (Response 201 (InviteJson invite),
                            \<lparr>invites = rows1, eth_calls = n1\<rparr>)))))"

text \<open>
  The other version of the router guards POST /addInvite with \<open>authMiddleware\<close>
  (middleware/auth.ts) and inserts without consulting the chain. \<open>env\<close> is the environment
  variable \<^verbatim>\<open>API_KEY\<close>, \<open>apiKey\<close> the header \<^verbatim>\<open>x-api-key\<close>; \<open>authMiddleware\<close> is true when
  the request is let through.
\<close>

definition API_KEY :: "string option \<Rightarrow> string" where
  "API_KEY env = (if body_field env = [] then ''your-secret-api-key'' else body_field env)"

definition authMiddleware :: "string option \<Rightarrow> string option \<Rightarrow> bool" where
  "authMiddleware env apiKey =
     (if body_field apiKey = [] \<or> body_field apiKey \<noteq> API_KEY env then False else True)"

definition addInvite_auth_route ::
  "string option \<Rightarrow> string option \<Rightarrow> string option \<Rightarrow> string option \<Rightarrow> string
     \<Rightarrow> world \<Rightarrow> response \<times> world" where
  "addInvite_auth_route env apiKey secret_f signer_f now w =
     (if \<not> authMiddleware env apiKey then (Response 401 (ErrorJson ''Unauthorized''), w)
      else
        let sec = body_field secret_f; sgnr = body_field signer_f in
        if sec = [] then (Response 400 (ErrorJson ''Secret is required''), w)
        else if sgnr = [] then (Response 400 (ErrorJson ''Signer is required''), w)
        else if \<not> test_hex sec
          then (Response 400 (ErrorJson ''Secret must be a valid hex string''), w)
        else
          (case addInvite sec sgnr now (invites w) of
             (Inl e, rows1) \<Rightarrow> (addInvite_catch e, w\<lparr>invites := rows1\<rparr>)
           | (Inr invite, rows1) \<Rightarrow>
               (Response 201 (InviteJson invite), w\<lparr>invites := rows1\<rparr>)))"

text \<open>
  GET /getInvite. \<open>t1\<close>, \<open>t2\<close>, \<open>t3\<close> are the readings of \<^verbatim>\<open>datetime('now')\<close> at the first
  \<open>getNextInvite\<close>, at \<open>markInviteAsUsed\<close> and at the second \<open>getNextInvite\<close>. An error
  inside the inner \<^verbatim>\<open>try\<close> is logged and the first invite is sent.
\<close>

definition getInvite_route ::
  "viem \<Rightarrow> string \<Rightarrow> string \<Rightarrow> string \<Rightarrow> world \<Rightarrow> response \<times> world" where
  "getInvite_route v t1 t2 t3 w =
     (case getNextInvite t1 (invites w) of
        (Inl e, rows1) \<Rightarrow>
          (Response 500 (ErrorJson ''Internal server error''), w\<lparr>invites := rows1\<rparr>)
      | (Inr None, rows1) \<Rightarrow>
          (Response 404 (ErrorJson ''No available invites''), w\<lparr>invites := rows1\<rparr>)
      | (Inr (Some invite), rows1) \<Rightarrow>
          if status invite = PENDING then
            (case checkInviteOnChain v (signer invite) (eth_calls w) of
               (Inl chainError, n1) \<Rightarrow>
                 (Response 200 (InviteJson invite), \<lparr>invites = rows1, eth_calls = n1\<rparr>)
             | (Inr chainData, n1) \<Rightarrow>
                 if claimed chainData then
                   (case markInviteAsUsed (secret invite) t2 rows1 of
                      (marked, rows2) \<Rightarrow>
                        (case getNextInvite t3 rows2 of
                           (Inl chainError, rows3) \<Rightarrow>
                             (Response 200 (InviteJson invite),
                              \<lparr>invites = rows3, eth_calls = n1\<rparr>)
                         | (Inr None, rows3) \<Rightarrow>
                             (Response 404 (ErrorJson ''No available invites''),
                              \<lparr>invites = rows3, eth_calls = n1\<rparr>)
                         | (Inr (Some nextInvite), rows3) \<Rightarrow>
                             (Response 200 (InviteJson nextInvite),
                              \<lparr>invites = rows3, eth_calls = n1\<rparr>)))
                 else (Response 200 (InviteJson invite), \<lparr>invites = rows1, eth_calls = n1\<rparr>))
          else (Response 200 (InviteJson invite), w\<lparr>invites := rows1\<rparr>))"

text \<open>
  POST /checkInvite. In the claimed branch the row is read again and the response carries
  the literal status \<^verbatim>\<open>'used'\<close>; were the second read to find nothing, the dereference
  would throw inside the inner \<^verbatim>\<open>try\<close>, whose \<^verbatim>\<open>catch\<close> answers 500.
\<close>

definition chain_failure :: response where
  "chain_failure = Response 500 (ErrorJson ''Failed to verify invite status on-chain'')"

definition checkInvite_route ::
  "viem \<Rightarrow> string option \<Rightarrow> string option \<Rightarrow> string \<Rightarrow> world \<Rightarrow> response \<times> world" where
  "checkInvite_route v secret_f address_f now w =
     (let sec = body_field secret_f; address = body_field address_f in
      if sec = []
        then (Response 400 (ErrorJson ''Secret is required to verify the invite''), w)
      else if address = [] then (Response 400 (ErrorJson ''Signer address is required''), w)
      else
        (case getInviteBySecret sec (invites w) of
           None \<Rightarrow> (Response 404 (ErrorJson ''Invite not found''), w)
         | Some invite \<Rightarrow>
             if status invite = USED then (Response 200 (CheckJson True invite), w)
             else
               (case checkInviteOnChain v address (eth_calls w) of
                  (Inl chainError, n1) \<Rightarrow> (chain_failure, w\<lparr>eth_calls := n1\<rparr>)
                | (Inr chainData, n1) \<Rightarrow>
                    if claimed chainData then
                      (case markInviteAsUsed sec now (invites w) of
                         (marked, rows1) \<Rightarrow>
                           (case getInviteBySecret sec rows1 of
                              None \<Rightarrow> (chain_failure, \<lparr>invites = rows1, eth_calls = n1\<rparr>)
                            | Some updatedInvite \<Rightarrow>
                                (Response 200 (CheckJson True (updatedInvite\<lparr>status := USED\<rparr>)),
                                 \<lparr>invites = rows1, eth_calls = n1\<rparr>)))
                    else (Response 200 (CheckJson False invite), w\<lparr>eth_calls := n1\<rparr>))))"

text \<open>
  A request to one of the routes, with the clock readings it will see. \<open>serve\<close> takes the
  behaviour of the ledger node, \<open>verifySecretMatchesAddress\<close> and the environment variable
  \<^verbatim>\<open>API_KEY\<close>.
\<close>

datatype request =
    AddInvite "string option" "string option" string
  | AddInviteAuth "string option" "string option" "string option" string
  | GetInvite string string string
  | CheckInvite "string option" "string option" string

fun serve ::
  "viem \<Rightarrow> (string \<Rightarrow> string \<Rightarrow> exn + bool) \<Rightarrow> string option \<Rightarrow> request \<Rightarrow> world
     \<Rightarrow> response \<times> world" where
  "serve v vf env (AddInvite secret_f address_f now) w =
     addInvite_route v vf secret_f address_f now w"
| "serve v vf env (AddInviteAuth apiKey secret_f signer_f now) w =
     addInvite_auth_route env apiKey secret_f signer_f now w"
| "serve v vf env (GetInvite t1 t2 t3) w = getInvite_route v t1 t2 t3 w"
| "serve v vf env (CheckInvite secret_f address_f now) w =
     checkInvite_route v secret_f address_f now w"

fun serve_all ::
  "viem \<Rightarrow> (string \<Rightarrow> string \<Rightarrow> exn + bool) \<Rightarrow> string option \<Rightarrow> request list \<Rightarrow> world
     \<Rightarrow> world" where
  "serve_all v vf env [] w = w"
| "serve_all v vf env (rq # rqs) w = serve_all v vf env rqs (snd (serve v vf env rq w))"

text \<open>
  The constraints of the table: \<^verbatim>\<open>PRIMARY KEY\<close> on \<open>id\<close>, \<^verbatim>\<open>UNIQUE\<close> on \<open>secret\<close>.
\<close>

definition table_ok :: "table \<Rightarrow> bool" where
  "table_ok rows = (distinct (map id' rows) \<and> distinct (map secret rows))"

text \<open>The order in which the lifecycle runs: none, pending, used.\<close>

fun rank :: "InviteStatus \<Rightarrow> nat" where
  "rank NONE = 0"
| "rank PENDING = 1"
| "rank USED = 2"

text \<open>
  How a row may differ between an earlier and a later table: same \<open>id\<close>, \<open>secret\<close> and
  \<open>signer\<close>, a status that is not earlier in the lifecycle, and no change at all once
  the status is \<open>used\<close>. \<open>evolves\<close> says so of every row of the earlier table, position
  by position; the later table may have more rows.
\<close>

definition advances :: "Invite \<Rightarrow> Invite \<Rightarrow> bool" where
  "advances r r' =
     (id' r' = id' r \<and> secret r' = secret r \<and> signer r' = signer r
      \<and> rank (status r) \<le> rank (status r') \<and> (status r = USED \<longrightarrow> r' = r))"

definition evolves :: "table \<Rightarrow> table \<Rightarrow> bool" where
  "evolves rows rows' =
     (length rows \<le> length rows' \<and> (\<forall>i<length rows. advances (rows ! i) (rows' ! i)))"

section \<open>Example states\<close>

text \<open>
  Rows for each status: the pending rows \<open>ex_A\<close> (older) and \<open>ex_B\<close>, the unissued \<open>ex_C\<close>,
  the used \<open>ex_U\<close>, \<open>ex_fresh\<close>, the row that the first insertion into an empty table
  creates, and \<open>ex_new\<close>, the row that the request \<open>ex_issue\<close> adds to \<open>[ex_A, ex_U]\<close>. Three behaviours of the ledger node: \<open>ex_claimed\<close> answers every request
  "claimed"; \<open>ex_down\<close> fails every request; \<open>ex_later\<close> answers the first request
  "not claimed" and every later one "claimed".
\<close>

definition ex_A :: Invite where
  "ex_A = \<lparr>id' = 1, secret = ''aa'', signer = ''0x00000000000000000000000000000000000000a1'',
            status = PENDING, updateDate = ''2024-01-01 00:00:00''\<rparr>"

definition ex_B :: Invite where
  "ex_B = \<lparr>id' = 2, secret = ''bb'', signer = ''0x00000000000000000000000000000000000000b2'',
            status = PENDING, updateDate = ''2024-01-01 00:00:05''\<rparr>"

definition ex_C :: Invite where
  "ex_C = \<lparr>id' = 3, secret = ''cc'', signer = ''0x00000000000000000000000000000000000000c3'',
            status = NONE, updateDate = ''2024-01-01 00:00:07''\<rparr>"

definition ex_U :: Invite where
  "ex_U = \<lparr>id' = 4, secret = ''dd'', signer = ''0x00000000000000000000000000000000000000d4'',
            status = USED, updateDate = ''2024-01-01 00:00:09''\<rparr>"

definition ex_claimed :: viem where
  "ex_claimed = \<lparr>encodeFunctionData = Inr,
                  call = (\<lambda>n d. Inr (Some ''0x01'')),
                  decodeAbiParameters = (\<lambda>d. Inr (''0x00000000000000000000000000000000000000ee'', True))\<rparr>"

definition ex_down :: viem where
  "ex_down = \<lparr>encodeFunctionData = Inr,
               call = (\<lambda>n d. Inl (Error ''fetch failed'')),
               decodeAbiParameters = (\<lambda>d. Inl (Error ''unreachable''))\<rparr>"

definition ex_later :: viem where
  "ex_later = \<lparr>encodeFunctionData = Inr,
                call = (\<lambda>n d. if n = 0 then Inr (Some ''0x00'') else Inr (Some ''0x01'')),
                decodeAbiParameters =
                  (\<lambda>d. Inr (''0x00000000000000000000000000000000000000ee'', d = ''0x01''))\<rparr>"

definition ex_fresh :: Invite where
  "ex_fresh = \<lparr>id' = 1, secret = ''0xc0ffee'', signer = ''0x00000000000000000000000000000000000000a1'',
                status = NONE, updateDate = ''2024-01-01 00:00:00''\<rparr>"

definition ex_new :: Invite where
  "ex_new = \<lparr>id' = 5, secret = ''0xee'', signer = ''0x00000000000000000000000000000000000000e5'',
              status = NONE, updateDate = ''2024-01-01 00:00:11''\<rparr>"

definition ex_issue :: "request list" where
  "ex_issue =
     [AddInviteAuth (Some ''your-secret-api-key'') (Some ''0xee'')
        (Some ''0x00000000000000000000000000000000000000e5'') ''2024-01-01 00:00:11'']"

definition ex_requests :: "request list" where
  "ex_requests =
     [GetInvite ''2024-01-02 00:00:00'' ''2024-01-02 00:00:01'' ''2024-01-02 00:00:02'',
      CheckInvite (Some ''dd'') (Some ''0x00000000000000000000000000000000000000d4'')
        ''2024-01-02 00:00:03'',
      AddInvite (Some ''0xee'') (Some ''0x00000000000000000000000000000000000000e5'')
        ''2024-01-02 00:00:04'',
      CheckInvite (Some ''aa'') (Some ''0x00000000000000000000000000000000000000a1'')
        ''2024-01-02 00:00:05'']"

section \<open>Statistics\<close>

lemma length_by_status:
  "length rows =
     length (filter (\<lambda>r. status r = NONE) rows)
     + length (filter (\<lambda>r. status r = PENDING) rows)
     + length (filter (\<lambda>r. status r = USED) rows)"
proof (induction rows)
  case Nil
  show ?case by simp
next
  case (Cons r rows)
  then show ?case by (cases "status r") simp_all
qed

text \<open>
  Claim C8. The record returned by \<open>getInviteStats\<close> satisfies
  \<open>total = used + pending + available\<close>; \<open>used\<close> and \<open>pending\<close> are the numbers of rows
  with those statuses, \<open>total\<close> is the number of rows, and \<open>available\<close> is the number of
  rows with status \<open>none\<close>.
\<close>

theorem getInviteStats_sum:
  "total (getInviteStats rows)
     = used (getInviteStats rows) + pending (getInviteStats rows)
       + available (getInviteStats rows)
   \<and> total (getInviteStats rows) = int (length rows)
   \<and> used (getInviteStats rows) = int (length (filter (\<lambda>r. status r = USED) rows))
   \<and> pending (getInviteStats rows) = int (length (filter (\<lambda>r. status r = PENDING) rows))
   \<and> available (getInviteStats rows) = int (length (filter (\<lambda>r. status r = NONE) rows))"
  using length_by_status [of rows]
  by (simp add: getInviteStats_def count_status_def Let_def)

section \<open>Facts about the table\<close>

lemma order_by_limit1_None: "order_by_limit1 k xs = None \<longleftrightarrow> xs = []"
  by (induction xs) (auto split: option.splits)

lemma order_by_limit1_Some:
  "order_by_limit1 k xs = Some x \<Longrightarrow> x \<in> set xs \<and> (\<forall>y\<in>set xs. k x \<le> k y)"
proof (induction xs arbitrary: x)
  case Nil
  then show ?case by simp
next
  case (Cons a xs)
  show ?case
  proof (cases "order_by_limit1 k xs")
    case None
    with Cons.prems show ?thesis by (simp add: order_by_limit1_None)
  next
    case (Some y)
    with Cons.IH [of y] Cons.prems show ?thesis
      by (auto split: if_splits)
  qed
qed

lemma find_by_id:
  "distinct (map id' rows) \<Longrightarrow> r \<in> set rows \<Longrightarrow> find (\<lambda>x. id' x = id' r) rows = Some r"
  by (induction rows) (auto simp: rev_image_eqI)

lemma find_by_secret:
  "distinct (map secret rows) \<Longrightarrow> r \<in> set rows \<Longrightarrow> find (\<lambda>x. secret x = secret r) rows = Some r"
  by (induction rows) (auto simp: rev_image_eqI)

lemma same_id:
  "distinct (map id' rows) \<Longrightarrow> r \<in> set rows \<Longrightarrow> x \<in> set rows \<Longrightarrow> id' x = id' r \<Longrightarrow> x = r"
  by (meson distinct_map inj_onD)

lemma updateInviteStatus_eq:
  "distinct (map id' rows) \<Longrightarrow> r \<in> set rows \<Longrightarrow>
   updateInviteStatus (id' r) st now rows
     = map (\<lambda>x. if x = r then r\<lparr>status := st, updateDate := now\<rparr> else x) rows"
  unfolding updateInviteStatus_def
  by (rule map_cong) (auto dest: same_id)

lemma updateInviteStatus_ids [simp]: "map id' (updateInviteStatus i st now rows) = map id' rows"
  by (simp add: updateInviteStatus_def comp_def)

lemma updateInviteStatus_secrets [simp]:
  "map secret (updateInviteStatus i st now rows) = map secret rows"
  by (simp add: updateInviteStatus_def comp_def)

lemma updateInviteStatus_length [simp]: "length (updateInviteStatus i st now rows) = length rows"
  by (simp add: updateInviteStatus_def)

lemma table_ok_update: "table_ok rows \<Longrightarrow> table_ok (updateInviteStatus i st now rows)"
  by (simp add: table_ok_def)

lemma find_updated:
  "distinct (map id' rows) \<Longrightarrow> r \<in> set rows \<Longrightarrow>
   find (\<lambda>x. id' x = id' r) (updateInviteStatus (id' r) st now rows)
     = Some (r\<lparr>status := st, updateDate := now\<rparr>)"
  by (induction rows) (auto simp: updateInviteStatus_def rev_image_eqI)

lemma getNextInvite_none:
  assumes ok: "table_ok rows" and ex: "filter (\<lambda>r. status r = NONE) rows \<noteq> []"
  shows "\<exists>r. r \<in> set rows \<and> status r = NONE
           \<and> (\<forall>x\<in>set rows. status x = NONE \<longrightarrow> id' r \<le> id' x)
           \<and> getNextInvite now rows
               = (Inr (Some (r\<lparr>status := PENDING, updateDate := now\<rparr>)),
                  map (\<lambda>x. if x = r then r\<lparr>status := PENDING, updateDate := now\<rparr> else x) rows)"
proof -
  from ex obtain r where sel: "order_by_limit1 id' (filter (\<lambda>r. status r = NONE) rows) = Some r"
    by (cases "order_by_limit1 id' (filter (\<lambda>r. status r = NONE) rows)")
       (auto simp: order_by_limit1_None)
  from order_by_limit1_Some [OF sel]
  have r: "r \<in> set rows" "status r = NONE"
    and least: "\<forall>x\<in>set rows. status x = NONE \<longrightarrow> id' r \<le> id' x"
    by auto
  from ok have d: "distinct (map id' rows)" by (simp add: table_ok_def)
  have "getNextInvite now rows
          = (Inr (Some (r\<lparr>status := PENDING, updateDate := now\<rparr>)),
             updateInviteStatus (id' r) PENDING now rows)"
    by (simp add: getNextInvite_def sel getInviteById_def find_updated [OF d r(1)])
  with updateInviteStatus_eq [OF d r(1)] r least show ?thesis by auto
qed

lemma getNextInvite_pending:
  assumes no: "filter (\<lambda>r. status r = NONE) rows = []"
    and ex: "filter (\<lambda>r. status r = PENDING) rows \<noteq> []"
  shows "\<exists>r. r \<in> set rows \<and> status r = PENDING
           \<and> (\<forall>x\<in>set rows. status x = PENDING \<longrightarrow> updateDate r \<le> updateDate x)
           \<and> getNextInvite now rows = (Inr (Some r), rows)"
proof -
  from ex obtain r
    where sel: "order_by_limit1 updateDate (filter (\<lambda>r. status r = PENDING) rows) = Some r"
    by (cases "order_by_limit1 updateDate (filter (\<lambda>r. status r = PENDING) rows)")
       (auto simp: order_by_limit1_None)
  from order_by_limit1_Some [OF sel]
  have "r \<in> set rows" "status r = PENDING"
    "\<forall>x\<in>set rows. status x = PENDING \<longrightarrow> updateDate r \<le> updateDate x"
    by auto
  moreover have "getNextInvite now rows = (Inr (Some r), rows)"
    by (simp add: getNextInvite_def no sel)
  ultimately show ?thesis by blast
qed

lemma getNextInvite_nothing:
  assumes "filter (\<lambda>r. status r = NONE) rows = []"
    and "filter (\<lambda>r. status r = PENDING) rows = []"
  shows "getNextInvite now rows = (Inr None, rows)"
  using assms by (simp add: getNextInvite_def)

lemma advances_refl: "advances r r"
  by (simp add: advances_def)

lemma advances_trans: "advances a b \<Longrightarrow> advances b c \<Longrightarrow> advances a c"
  by (auto simp: advances_def)

lemma evolves_refl: "evolves rows rows"
  by (simp add: evolves_def advances_refl)

lemma evolves_trans: "evolves a b \<Longrightarrow> evolves b c \<Longrightarrow> evolves a c"
  unfolding evolves_def
  by (meson advances_trans le_trans less_le_trans)

lemma evolves_append: "evolves rows (rows @ xs)"
  by (simp add: evolves_def nth_append advances_refl)

lemma evolves_update:
  assumes d: "distinct (map id' rows)" and r: "r \<in> set rows"
    and nu: "status r \<noteq> USED" and le: "rank (status r) \<le> rank st"
  shows "evolves rows (updateInviteStatus (id' r) st now rows)"
proof -
  have "advances (rows ! i) (updateInviteStatus (id' r) st now rows ! i)" if "i < length rows" for i
  proof (cases "rows ! i = r")
    case True
    with that nu le show ?thesis
      by (simp add: updateInviteStatus_eq [OF d r] advances_def)
  next
    case False
    with that show ?thesis
      by (simp add: updateInviteStatus_eq [OF d r] advances_refl)
  qed
  then show ?thesis by (simp add: evolves_def)
qed

lemma evolves_member:
  assumes "evolves rows rows'" and "r \<in> set rows"
  shows "\<exists>r'\<in>set rows'. advances r r'"
proof -
  from assms(2) obtain i where i: "i < length rows" "rows ! i = r"
    by (auto simp: in_set_conv_nth)
  with assms(1) have "advances r (rows' ! i)" "i < length rows'"
    by (auto simp: evolves_def)
  then show ?thesis by (metis nth_mem)
qed

lemma getNextInvite_evolves:
  assumes ok: "table_ok rows" and run: "getNextInvite now rows = (res, rows')"
  shows "table_ok rows' \<and> evolves rows rows'
         \<and> (\<forall>inv. res = Inr (Some inv) \<longrightarrow> inv \<in> set rows' \<and> status inv = PENDING)"
proof -
  from ok have d: "distinct (map id' rows)" by (simp add: table_ok_def)
  consider (none) "filter (\<lambda>r. status r = NONE) rows \<noteq> []"
    | (pending) "filter (\<lambda>r. status r = NONE) rows = []"
        "filter (\<lambda>r. status r = PENDING) rows \<noteq> []"
    | (neither) "filter (\<lambda>r. status r = NONE) rows = []"
        "filter (\<lambda>r. status r = PENDING) rows = []"
    by blast
  then show ?thesis
  proof cases
    case none
    from getNextInvite_none [OF ok none, where now = now] obtain r
      where r: "r \<in> set rows" "status r = NONE"
        and eq: "getNextInvite now rows
               = (Inr (Some (r\<lparr>status := PENDING, updateDate := now\<rparr>)),
                  map (\<lambda>x. if x = r then r\<lparr>status := PENDING, updateDate := now\<rparr> else x) rows)"
      by blast
    from eq run updateInviteStatus_eq [OF d r(1), where st = PENDING and now = now]
    have res: "res = Inr (Some (r\<lparr>status := PENDING, updateDate := now\<rparr>))"
      and rows': "rows' = updateInviteStatus (id' r) PENDING now rows"
      by simp_all
    have "r\<lparr>status := PENDING, updateDate := now\<rparr> \<in> set rows'"
      using r(1) by (force simp: rows' updateInviteStatus_eq [OF d r(1)])
    moreover have "evolves rows rows'"
      unfolding rows' using r by (intro evolves_update [OF d]) simp_all
    moreover have "table_ok rows'"
      unfolding rows' by (rule table_ok_update [OF ok])
    ultimately show ?thesis by (simp add: res)
  next
    case pending
    from getNextInvite_pending [OF pending] obtain r
      where "r \<in> set rows" "status r = PENDING" "getNextInvite now rows = (Inr (Some r), rows)"
      by blast
    with run ok show ?thesis
      by (auto simp: evolves_refl)
  next
    case neither
    from getNextInvite_nothing [OF neither] have "getNextInvite now rows = (Inr None, rows)" .
    with run ok show ?thesis
      by (auto simp: evolves_refl)
  qed
qed

lemma markInviteAsUsed_found:
  assumes ok: "table_ok rows" and r: "r \<in> set rows"
  shows "markInviteAsUsed (secret r) now rows = (True, updateInviteStatus (id' r) USED now rows)"
  using ok r by (simp add: markInviteAsUsed_def getInviteBySecret_def find_by_secret table_ok_def)

lemma markInviteAsUsed_evolves:
  assumes ok: "table_ok rows" and r: "r \<in> set rows" and nu: "status r \<noteq> USED"
  shows "table_ok (snd (markInviteAsUsed (secret r) now rows))
         \<and> evolves rows (snd (markInviteAsUsed (secret r) now rows))"
proof -
  from ok have d: "distinct (map id' rows)" by (simp add: table_ok_def)
  have "rank (status r) \<le> rank USED" by (cases "status r") simp_all
  from evolves_update [OF d r nu this, where now = now] table_ok_update [OF ok]
  show ?thesis by (simp add: markInviteAsUsed_found [OF ok r])
qed

lemma foldr_max_ge: "x \<in> set xs \<Longrightarrow> x \<le> foldr max xs (0::nat)"
  by (induction xs) (auto simp: max_def)

lemma next_rowid_fresh: "next_rowid rows \<notin> set (map id' rows)"
  using foldr_max_ge [of "next_rowid rows" "map id' rows"]
  by (auto simp: next_rowid_def)

lemma addInvite_evolves:
  assumes ok: "table_ok rows"
  shows "table_ok (snd (addInvite sec sgnr now rows))
         \<and> evolves rows (snd (addInvite sec sgnr now rows))"
  using ok next_rowid_fresh [of rows]
  by (auto simp: addInvite_def Let_def table_ok_def evolves_refl evolves_append)

section \<open>Dispense precedence in the table\<close>

text \<open>
  Claim C3. In a table that satisfies its constraints, \<open>getNextInvite\<close> follows this
  precedence. If some row has status \<open>none\<close>, it takes the one with the smallest \<open>id\<close>,
  sets its status to \<open>pending\<close> (and its \<open>updateDate\<close> to the current time), changes no other
  row, and returns the updated row. Otherwise, if some row has status \<open>pending\<close>, it returns
  one whose \<open>updateDate\<close> is least among the pending rows and changes nothing. Otherwise
  it returns \<open>null\<close> and changes nothing. A row with status \<open>none\<close> is taken whatever
  pending rows there are.
\<close>

theorem getNextInvite_precedence:
  assumes ok: "table_ok rows"
  shows
    "((\<exists>x\<in>set rows. status x = NONE) \<longrightarrow>
        (\<exists>r. r \<in> set rows \<and> status r = NONE
           \<and> (\<forall>x\<in>set rows. status x = NONE \<longrightarrow> id' r \<le> id' x)
           \<and> getNextInvite now rows
               = (Inr (Some (r\<lparr>status := PENDING, updateDate := now\<rparr>)),
                  map (\<lambda>x. if x = r then r\<lparr>status := PENDING, updateDate := now\<rparr> else x) rows)))
     \<and> (\<not> (\<exists>x\<in>set rows. status x = NONE) \<and> (\<exists>x\<in>set rows. status x = PENDING) \<longrightarrow>
        (\<exists>r. r \<in> set rows \<and> status r = PENDING
           \<and> (\<forall>x\<in>set rows. status x = PENDING \<longrightarrow> updateDate r \<le> updateDate x)
           \<and> getNextInvite now rows = (Inr (Some r), rows)))
     \<and> (\<not> (\<exists>x\<in>set rows. status x = NONE) \<and> \<not> (\<exists>x\<in>set rows. status x = PENDING) \<longrightarrow>
        getNextInvite now rows = (Inr None, rows))"
proof (intro conjI impI)
  assume "\<exists>x\<in>set rows. status x = NONE"
  then have "filter (\<lambda>r. status r = NONE) rows \<noteq> []"
    by (simp add: filter_empty_conv)
  from getNextInvite_none [OF ok this]
  show "\<exists>r. r \<in> set rows \<and> status r = NONE
           \<and> (\<forall>x\<in>set rows. status x = NONE \<longrightarrow> id' r \<le> id' x)
           \<and> getNextInvite now rows
               = (Inr (Some (r\<lparr>status := PENDING, updateDate := now\<rparr>)),
                  map (\<lambda>x. if x = r then r\<lparr>status := PENDING, updateDate := now\<rparr> else x) rows)" .
next
  assume "\<not> (\<exists>x\<in>set rows. status x = NONE) \<and> (\<exists>x\<in>set rows. status x = PENDING)"
  then have "filter (\<lambda>r. status r = NONE) rows = []"
    and "filter (\<lambda>r. status r = PENDING) rows \<noteq> []"
    by (simp_all add: filter_empty_conv)
  from getNextInvite_pending [OF this]
  show "\<exists>r. r \<in> set rows \<and> status r = PENDING
           \<and> (\<forall>x\<in>set rows. status x = PENDING \<longrightarrow> updateDate r \<le> updateDate x)
           \<and> getNextInvite now rows = (Inr (Some r), rows)" .
next
  assume "\<not> (\<exists>x\<in>set rows. status x = NONE) \<and> \<not> (\<exists>x\<in>set rows. status x = PENDING)"
  then have "filter (\<lambda>r. status r = NONE) rows = []"
    and "filter (\<lambda>r. status r = PENDING) rows = []"
    by (simp_all add: filter_empty_conv)
  from getNextInvite_nothing [OF this]
  show "getNextInvite now rows = (Inr None, rows)" .
qed

theorem getNextInvite_precedence_witness:
  "table_ok [ex_A, ex_B, ex_C, ex_U]
   \<and> getNextInvite ''2024-01-02 00:00:00'' [ex_A, ex_B, ex_C, ex_U]
       = (Inr (Some (ex_C\<lparr>status := PENDING, updateDate := ''2024-01-02 00:00:00''\<rparr>)),
          [ex_A, ex_B, ex_C\<lparr>status := PENDING, updateDate := ''2024-01-02 00:00:00''\<rparr>, ex_U])
   \<and> table_ok [ex_B, ex_A, ex_U]
   \<and> getNextInvite ''2024-01-02 00:00:00'' [ex_B, ex_A, ex_U] = (Inr (Some ex_A), [ex_B, ex_A, ex_U])
   \<and> table_ok [ex_U]
   \<and> getNextInvite ''2024-01-02 00:00:00'' [ex_U] = (Inr None, [ex_U])"
proof -
  let ?now = "''2024-01-02 00:00:00''"
  note ex = ex_A_def ex_B_def ex_C_def ex_U_def
  have ok1: "table_ok [ex_A, ex_B, ex_C, ex_U]" by (simp add: table_ok_def ex)
  have ok2: "table_ok [ex_B, ex_A, ex_U]" by (simp add: table_ok_def ex)
  have ok3: "table_ok [ex_U]" by (simp add: table_ok_def ex)
  have "\<exists>x\<in>set [ex_A, ex_B, ex_C, ex_U]. status x = NONE" by (simp add: ex)
  with getNextInvite_precedence [OF ok1, of ?now] obtain r
    where "r \<in> set [ex_A, ex_B, ex_C, ex_U]" "status r = NONE"
      and g: "getNextInvite ?now [ex_A, ex_B, ex_C, ex_U]
              = (Inr (Some (r\<lparr>status := PENDING, updateDate := ?now\<rparr>)),
                 map (\<lambda>x. if x = r then r\<lparr>status := PENDING, updateDate := ?now\<rparr> else x)
                   [ex_A, ex_B, ex_C, ex_U])"
    by blast
  then have "r = ex_C" by (auto simp: ex)
  with g have g1: "getNextInvite ?now [ex_A, ex_B, ex_C, ex_U]
       = (Inr (Some (ex_C\<lparr>status := PENDING, updateDate := ?now\<rparr>)),
          [ex_A, ex_B, ex_C\<lparr>status := PENDING, updateDate := ?now\<rparr>, ex_U])"
    by (simp add: ex)
  have "\<not> (\<exists>x\<in>set [ex_B, ex_A, ex_U]. status x = NONE)
        \<and> (\<exists>x\<in>set [ex_B, ex_A, ex_U]. status x = PENDING)" by (simp add: ex)
  with getNextInvite_precedence [OF ok2, of ?now] obtain p
    where "p \<in> set [ex_B, ex_A, ex_U]" "status p = PENDING"
      and "\<forall>x\<in>set [ex_B, ex_A, ex_U]. status x = PENDING \<longrightarrow> updateDate p \<le> updateDate x"
      and g: "getNextInvite ?now [ex_B, ex_A, ex_U] = (Inr (Some p), [ex_B, ex_A, ex_U])"
    by blast
  then have "p = ex_A" by (auto simp: ex)
  with g have g2: "getNextInvite ?now [ex_B, ex_A, ex_U] = (Inr (Some ex_A), [ex_B, ex_A, ex_U])"
    by simp
  have "\<not> (\<exists>x\<in>set [ex_U]. status x = NONE) \<and> \<not> (\<exists>x\<in>set [ex_U]. status x = PENDING)"
    by (simp add: ex)
  with getNextInvite_precedence [OF ok3, of ?now]
  have g3: "getNextInvite ?now [ex_U] = (Inr None, [ex_U])" by blast
  from ok1 g1 ok2 g2 ok3 g3 show ?thesis by blast
qed

section \<open>The chain oracle adapter never throws\<close>

lemmas route_defs =
  getInvite_route_def checkInvite_route_def addInvite_route_def
  checkInviteOnChain_def checkInviteOnChain_try_def signerAddress_def
  startsWith_def toLowerCase_def toLowerCase_char_def not_claimed_def zero_address_def
  getNextInvite_def getInviteById_def getInviteBySecret_def markInviteAsUsed_def
  updateInviteStatus_def addInvite_def next_rowid_def body_field_def chain_failure_def
  addInvite_catch_def test_hex_def test_address_def hex_digit_def table_ok_def Let_def

lemma checkInviteOnChain_Inr: "\<exists>cd n'. checkInviteOnChain v sgnr n = (Inr cd, n')"
  by (cases "checkInviteOnChain_try v sgnr n")
     (auto simp: checkInviteOnChain_def split: sum.splits)

text \<open>
  Claim C6. When the \<^verbatim>\<open>eth_call\<close> request of \<open>checkInviteOnChain\<close> raises an error,
  returns no data (undefined or empty), or returns data that cannot be decoded, the
  function returns exactly the zero address with \<open>claimed = false\<close>, and exactly one request
  has been sent: there is no retry. When the encoding of the call raises, the same value
  is returned and no request is sent.
\<close>

theorem checkInviteOnChain_fail_open:
  "(encodeFunctionData v (signerAddress sgnr) = Inr d
      \<and> ((\<exists>e. call v n d = Inl e) \<or> call v n d = Inr None \<or> call v n d = Inr (Some [])
           \<or> (\<exists>d' e. call v n d = Inr (Some d') \<and> decodeAbiParameters v d' = Inl e))
    \<longrightarrow> checkInviteOnChain v sgnr n
          = (Inr \<lparr>account = ''0x0000000000000000000000000000000000000000'', claimed = False\<rparr>,
             Suc n))
   \<and> ((\<exists>e. encodeFunctionData v (signerAddress sgnr) = Inl e)
    \<longrightarrow> checkInviteOnChain v sgnr n
          = (Inr \<lparr>account = ''0x0000000000000000000000000000000000000000'', claimed = False\<rparr>,
             n))"
  by (auto simp: checkInviteOnChain_def checkInviteOnChain_try_def not_claimed_def
        zero_address_def)

theorem checkInviteOnChain_fail_open_witness:
  "encodeFunctionData ex_down (signerAddress ''00000000000000000000000000000000000000a1'')
     = Inr ''0x00000000000000000000000000000000000000a1''
   \<and> call ex_down 7 ''0x00000000000000000000000000000000000000a1'' = Inl (Error ''fetch failed'')
   \<and> checkInviteOnChain ex_down ''00000000000000000000000000000000000000a1'' 7
     = (Inr \<lparr>account = ''0x0000000000000000000000000000000000000000'', claimed = False\<rparr>, 8)"
proof -
  have enc: "encodeFunctionData ex_down (signerAddress ''00000000000000000000000000000000000000a1'')
     = Inr ''0x00000000000000000000000000000000000000a1''"
    by (simp add: ex_down_def signerAddress_def startsWith_def toLowerCase_def toLowerCase_char_def)
  have err: "call ex_down 7 ''0x00000000000000000000000000000000000000a1''
               = Inl (Error ''fetch failed'')"
    by (simp add: ex_down_def)
  from checkInviteOnChain_fail_open
         [of ex_down "''00000000000000000000000000000000000000a1''"
             "''0x00000000000000000000000000000000000000a1''" 7] enc err
  show ?thesis by simp
qed

section \<open>Statuses only move forward\<close>

lemma getInvite_route_evolves:
  assumes ok: "table_ok (invites w)"
  shows "table_ok (invites (snd (getInvite_route v t1 t2 t3 w)))
         \<and> evolves (invites w) (invites (snd (getInvite_route v t1 t2 t3 w)))"
proof -
  obtain res1 rows1 where g1: "getNextInvite t1 (invites w) = (res1, rows1)"
    by (cases "getNextInvite t1 (invites w)")
  from getNextInvite_evolves [OF ok g1]
  have ok1: "table_ok rows1" and ev1: "evolves (invites w) rows1"
    and sel1: "\<And>inv. res1 = Inr (Some inv) \<Longrightarrow> inv \<in> set rows1 \<and> status inv = PENDING"
    by auto
  show ?thesis
  proof (cases res1)
    case (Inl e)
    with g1 ok1 ev1 show ?thesis by (simp add: getInvite_route_def)
  next
    case (Inr found)
    show ?thesis
    proof (cases found)
      case None
      with Inr g1 ok1 ev1 show ?thesis by (simp add: getInvite_route_def)
    next
      case (Some invite)
      with Inr sel1 have inv: "invite \<in> set rows1" "status invite = PENDING" by auto
      obtain cd n1 where c: "checkInviteOnChain v (signer invite) (eth_calls w) = (Inr cd, n1)"
        using checkInviteOnChain_Inr by blast
      show ?thesis
      proof (cases "claimed cd")
        case False
        with Inr Some g1 c inv ok1 ev1 show ?thesis by (simp add: getInvite_route_def)
      next
        case True
        obtain marked rows2 where m: "markInviteAsUsed (secret invite) t2 rows1 = (marked, rows2)"
          by (cases "markInviteAsUsed (secret invite) t2 rows1")
        from markInviteAsUsed_evolves [OF ok1 inv(1), of t2] inv(2) m
        have ok2: "table_ok rows2" and ev2: "evolves rows1 rows2" by auto
        obtain res3 rows3 where g3: "getNextInvite t3 rows2 = (res3, rows3)"
          by (cases "getNextInvite t3 rows2")
        from getNextInvite_evolves [OF ok2 g3]
        have ok3: "table_ok rows3" and ev3: "evolves rows2 rows3" by auto
        from ev1 ev2 ev3 have ev: "evolves (invites w) rows3"
          by (blast intro: evolves_trans)
        have "invites (snd (getInvite_route v t1 t2 t3 w)) = rows3"
          using Inr Some g1 c inv True m g3
          by (simp add: getInvite_route_def split: sum.splits option.splits)
        with ok3 ev show ?thesis by simp
      qed
    qed
  qed
qed

lemma find_secret_in_set: "find (\<lambda>x. secret x = sec) rows = Some r \<Longrightarrow> r \<in> set rows \<and> secret r = sec"
  by (induction rows) (auto split: if_splits)

lemma checkInvite_route_evolves:
  assumes ok: "table_ok (invites w)"
  shows "table_ok (invites (snd (checkInvite_route v sf af now w)))
         \<and> evolves (invites w) (invites (snd (checkInvite_route v sf af now w)))"
proof (cases "getInviteBySecret (body_field sf) (invites w)")
  case None
  with ok show ?thesis
    by (simp add: checkInvite_route_def Let_def evolves_refl)
next
  case (Some invite)
  then have inv: "invite \<in> set (invites w)" "secret invite = body_field sf"
    using find_secret_in_set by (auto simp: getInviteBySecret_def)
  obtain cd n1 where c: "checkInviteOnChain v (body_field af) (eth_calls w) = (Inr cd, n1)"
    using checkInviteOnChain_Inr by blast
  show ?thesis
  proof (cases "status invite = USED \<or> \<not> claimed cd")
    case True
    with Some c ok show ?thesis
      by (auto simp: checkInvite_route_def Let_def evolves_refl)
  next
    case False
    then have nu: "status invite \<noteq> USED" and cl: "claimed cd" by auto
    from markInviteAsUsed_evolves [OF ok inv(1) nu, of now] inv(2)
    have "table_ok (snd (markInviteAsUsed (body_field sf) now (invites w)))"
      "evolves (invites w) (snd (markInviteAsUsed (body_field sf) now (invites w)))"
      by auto
    with Some c nu cl ok show ?thesis
      by (auto simp: checkInvite_route_def Let_def evolves_refl split: prod.splits option.splits)
  qed
qed

lemma addInvite_route_evolves:
  assumes ok: "table_ok (invites w)"
  shows "table_ok (invites (snd (addInvite_route v vf sf af now w)))
         \<and> evolves (invites w) (invites (snd (addInvite_route v vf sf af now w)))"
proof -
  obtain cd n1 where c: "checkInviteOnChain v (body_field af) (eth_calls w) = (Inr cd, n1)"
    using checkInviteOnChain_Inr by blast
  from addInvite_evolves [OF ok, of "body_field sf" "body_field af" now]
  show ?thesis using ok c
    by (auto simp: addInvite_route_def Let_def evolves_refl split: sum.splits prod.splits)
qed

lemma addInvite_auth_route_evolves:
  assumes ok: "table_ok (invites w)"
  shows "table_ok (invites (snd (addInvite_auth_route env apiKey sf gf now w)))
         \<and> evolves (invites w) (invites (snd (addInvite_auth_route env apiKey sf gf now w)))"
  using addInvite_evolves [OF ok, of "body_field sf" "body_field gf" now] ok
  by (auto simp: addInvite_auth_route_def Let_def evolves_refl split: sum.splits prod.splits)

lemma serve_evolves:
  assumes ok: "table_ok (invites w)"
  shows "table_ok (invites (snd (serve v vf env rq w)))
         \<and> evolves (invites w) (invites (snd (serve v vf env rq w)))"
  using ok
  by (cases rq)
     (simp_all add: addInvite_route_evolves addInvite_auth_route_evolves
        getInvite_route_evolves checkInvite_route_evolves)

lemma serve_all_evolves:
  "table_ok (invites w) \<Longrightarrow>
   table_ok (invites (serve_all v vf env rqs w))
   \<and> evolves (invites w) (invites (serve_all v vf env rqs w))"
proof (induction rqs arbitrary: w)
  case Nil
  then show ?case by (simp add: evolves_refl)
next
  case (Cons rq rqs)
  from serve_evolves [OF Cons.prems, of v vf env rq]
  have ok1: "table_ok (invites (snd (serve v vf env rq w)))"
    and ev1: "evolves (invites w) (invites (snd (serve v vf env rq w)))" by auto
  from Cons.IH [OF ok1] ev1 show ?case
    by (auto intro: evolves_trans)
qed

lemma serve_all_append:
  "serve_all v vf env (rqs1 @ rqs2) w = serve_all v vf env rqs2 (serve_all v vf env rqs1 w)"
  by (induction rqs1 arbitrary: w) simp_all

text \<open>
  Claim C4. Start from a table that satisfies its constraints and serve any sequence of
  requests to the routes (addInvite in both versions, getInvite, checkInvite), with any
  behaviour of the ledger node and any clock readings. Every row present at any moment of
  the sequence is still present at every later moment with the same \<open>id\<close>, \<open>secret\<close> and
  \<open>signer\<close>, and its status is not earlier in the order none, pending, used than it was;
  a row whose status was \<open>used\<close> is unchanged altogether. The table still satisfies its
  constraints, so the row with that \<open>id\<close> is the only one.
\<close>

theorem status_moves_forward:
  assumes ok: "table_ok (invites w)" and r: "r \<in> set (invites (serve_all v vf env rqs1 w))"
  shows "table_ok (invites (serve_all v vf env (rqs1 @ rqs2) w))
         \<and> (\<exists>r'\<in>set (invites (serve_all v vf env (rqs1 @ rqs2) w)).
               id' r' = id' r \<and> secret r' = secret r \<and> signer r' = signer r
               \<and> rank (status r) \<le> rank (status r')
               \<and> (status r = USED \<longrightarrow> r' = r))"
proof -
  let ?w1 = "serve_all v vf env rqs1 w"
  from serve_all_evolves [OF ok] have ok1: "table_ok (invites ?w1)" by blast
  from serve_all_evolves [OF ok1]
  have "table_ok (invites (serve_all v vf env rqs2 ?w1))"
    and "evolves (invites ?w1) (invites (serve_all v vf env rqs2 ?w1))" by auto
  with evolves_member [OF _ r] show ?thesis
    by (fastforce simp: advances_def serve_all_append)
qed

theorem status_moves_forward_witness:
  "table_ok [ex_A, ex_U]
   \<and> invites (serve_all ex_claimed (\<lambda>s a. Inr True) None ex_issue
                \<lparr>invites = [ex_A, ex_U], eth_calls = 0\<rparr>)
       = [ex_A, ex_U, ex_new]
   \<and> status ex_U = USED \<and> status ex_new = NONE
   \<and> ex_U \<in> set (invites (serve_all ex_claimed (\<lambda>s a. Inr True) None (ex_issue @ ex_requests)
                              \<lparr>invites = [ex_A, ex_U], eth_calls = 0\<rparr>))
   \<and> invites (serve_all ex_claimed (\<lambda>s a. Inr True) None (ex_issue @ ex_requests)
                \<lparr>invites = [ex_A, ex_U], eth_calls = 0\<rparr>)
       = [ex_A\<lparr>status := USED, updateDate := ''2024-01-02 00:00:05''\<rparr>, ex_U,
          ex_new\<lparr>status := USED, updateDate := ''2024-01-02 00:00:01''\<rparr>]"
proof -
  let ?w = "\<lparr>invites = [ex_A, ex_U], eth_calls = 0\<rparr>"
  have ok: "table_ok (invites ?w)"
    by (simp add: table_ok_def ex_A_def ex_U_def)
  have first: "invites (serve_all ex_claimed (\<lambda>s a. Inr True) None ex_issue ?w)
                 = [ex_A, ex_U, ex_new]"
    by (simp add: ex_issue_def addInvite_auth_route_def authMiddleware_def API_KEY_def
          route_defs ex_A_def ex_U_def ex_new_def)
  then have mem: "ex_U \<in> set (invites (serve_all ex_claimed (\<lambda>s a. Inr True) None ex_issue ?w))"
    by simp
  have u: "status ex_U = USED" and n: "status ex_new = NONE"
    by (simp_all add: ex_U_def ex_new_def)
  from status_moves_forward [OF ok mem, of ex_requests] u
  have "ex_U \<in> set (invites (serve_all ex_claimed (\<lambda>s a. Inr True) None
                              (ex_issue @ ex_requests) ?w))"
    by auto
  moreover have "invites (serve_all ex_claimed (\<lambda>s a. Inr True) None (ex_issue @ ex_requests) ?w)
       = [ex_A\<lparr>status := USED, updateDate := ''2024-01-02 00:00:05''\<rparr>, ex_U,
          ex_new\<lparr>status := USED, updateDate := ''2024-01-02 00:00:01''\<rparr>]"
    by (simp add: ex_issue_def ex_requests_def addInvite_auth_route_def authMiddleware_def
          API_KEY_def route_defs ex_A_def ex_U_def ex_new_def ex_claimed_def)
  ultimately show ?thesis using ok first u n by simp
qed

section \<open>Duplicate secrets\<close>

lemma includes_str_prefix: "startsWith s p \<Longrightarrow> includes_str s p"
  by (cases s) (simp_all add: startsWith_def)

lemma unique_message:
  "addInvite_catch (Error ''UNIQUE constraint failed: invites.secret'')
     = Response 409 (ErrorJson ''Secret already exists'')"
  by (simp add: addInvite_catch_def includes_str_prefix startsWith_def)

lemma addInvite_unique_violation:
  "sec \<in> set (map secret rows) \<Longrightarrow>
   addInvite sec sgnr now rows
     = (Inl (Error ''UNIQUE constraint failed: invites.secret''), rows)"
  by (simp add: addInvite_def)

text \<open>
  Claim C5. When the table holds a row with secret \<open>sec\<close>, \<open>addInvite\<close> with that secret
  fails with the UNIQUE-constraint error and leaves the table as it was; the addInvite
  route maps that error to 409 "Secret already exists"; the route, in both versions,
  leaves the table unchanged whatever else the request holds, and answers 409 whenever
  the request passes the checks that precede the insertion.
\<close>

theorem addInvite_duplicate_secret:
  assumes dup: "sec \<in> set (map secret (invites w))"
  shows "addInvite sec sgnr now (invites w)
           = (Inl (Error ''UNIQUE constraint failed: invites.secret''), invites w)
         \<and> addInvite_catch (Error ''UNIQUE constraint failed: invites.secret'')
           = Response 409 (ErrorJson ''Secret already exists'')
         \<and> invites (snd (addInvite_route v vf (Some sec) address_f now w)) = invites w
         \<and> (test_hex sec \<and> test_address (body_field address_f)
              \<and> vf sec (body_field address_f) = Inr True
              \<and> fst (checkInviteOnChain v (body_field address_f) (eth_calls w)) = Inr cd
              \<and> account cd \<noteq> zero_address \<and> \<not> claimed cd
            \<longrightarrow> fst (addInvite_route v vf (Some sec) address_f now w)
                = Response 409 (ErrorJson ''Secret already exists''))
         \<and> invites (snd (addInvite_auth_route env apiKey (Some sec) signer_f now w)) = invites w
         \<and> (authMiddleware env apiKey \<and> test_hex sec \<and> body_field signer_f \<noteq> []
            \<longrightarrow> fst (addInvite_auth_route env apiKey (Some sec) signer_f now w)
                = Response 409 (ErrorJson ''Secret already exists''))"
proof (intro conjI impI)
  show "addInvite sec sgnr now (invites w)
           = (Inl (Error ''UNIQUE constraint failed: invites.secret''), invites w)"
    by (rule addInvite_unique_violation [OF dup])
  show "addInvite_catch (Error ''UNIQUE constraint failed: invites.secret'')
           = Response 409 (ErrorJson ''Secret already exists'')"
    by (rule unique_message)
  show "invites (snd (addInvite_route v vf (Some sec) address_f now w)) = invites w"
    by (simp add: addInvite_route_def Let_def body_field_def addInvite_unique_violation [OF dup]
          split: sum.splits prod.splits option.splits)
  show "invites (snd (addInvite_auth_route env apiKey (Some sec) signer_f now w)) = invites w"
    by (simp add: addInvite_auth_route_def Let_def addInvite_unique_violation [OF dup]
          body_field_def [of "Some sec"])
next
  assume a: "authMiddleware env apiKey \<and> test_hex sec \<and> body_field signer_f \<noteq> []"
  then have "sec \<noteq> []"
    by (auto simp: test_hex_def startsWith_def)
  with a show "fst (addInvite_auth_route env apiKey (Some sec) signer_f now w)
                = Response 409 (ErrorJson ''Secret already exists'')"
    by (simp add: addInvite_auth_route_def Let_def addInvite_unique_violation [OF dup]
          unique_message body_field_def [of "Some sec"])
next
  assume a: "test_hex sec \<and> test_address (body_field address_f)
              \<and> vf sec (body_field address_f) = Inr True
              \<and> fst (checkInviteOnChain v (body_field address_f) (eth_calls w)) = Inr cd
              \<and> account cd \<noteq> zero_address \<and> \<not> claimed cd"
  then have "sec \<noteq> []" "body_field address_f \<noteq> []"
    by (auto simp: test_hex_def test_address_def startsWith_def)
  moreover obtain n1 where "checkInviteOnChain v (body_field address_f) (eth_calls w) = (Inr cd, n1)"
    using a by (cases "checkInviteOnChain v (body_field address_f) (eth_calls w)") auto
  ultimately show "fst (addInvite_route v vf (Some sec) address_f now w)
                = Response 409 (ErrorJson ''Secret already exists'')"
    using a
    by (simp add: addInvite_route_def Let_def addInvite_unique_violation [OF dup] unique_message
          body_field_def [of "Some sec"])
qed

theorem addInvite_duplicate_secret_witness:
  "''aa'' \<in> set (map secret [ex_A])
   \<and> addInvite ''aa'' ''0x00000000000000000000000000000000000000f6'' ''2024-01-02 00:00:00'' [ex_A]
       = (Inl (Error ''UNIQUE constraint failed: invites.secret''), [ex_A])
   \<and> addInvite_route ex_later (\<lambda>s a. Inr True) (Some ''aa'')
        (Some ''0x00000000000000000000000000000000000000f6'') ''2024-01-02 00:00:00''
        \<lparr>invites = [ex_A], eth_calls = 0\<rparr>
       = (Response 409 (ErrorJson ''Secret already exists''), \<lparr>invites = [ex_A], eth_calls = 1\<rparr>)"
proof -
  let ?w = "\<lparr>invites = [ex_A], eth_calls = 0\<rparr>"
  let ?addr = "''0x00000000000000000000000000000000000000f6''"
  let ?cd = "\<lparr>account = ''0x00000000000000000000000000000000000000ee'', claimed = False\<rparr>"
  have dup: "''aa'' \<in> set (map secret (invites ?w))" by (simp add: ex_A_def)
  have pre: "test_hex ''aa'' \<and> test_address (body_field (Some ?addr))
              \<and> (\<lambda>s a. Inr True) ''aa'' (body_field (Some ?addr)) = Inr True
              \<and> fst (checkInviteOnChain ex_later (body_field (Some ?addr)) (eth_calls ?w)) = Inr ?cd
              \<and> account ?cd \<noteq> zero_address \<and> \<not> claimed ?cd"
    by (simp add: route_defs ex_later_def)
  have calls: "eth_calls (snd (addInvite_route ex_later (\<lambda>s a. Inr True) (Some ''aa'')
                 (Some ?addr) ''2024-01-02 00:00:00'' ?w)) = 1"
    by (simp add: route_defs ex_later_def ex_A_def)
  from addInvite_duplicate_secret [OF dup, of ?addr "''2024-01-02 00:00:00''" ex_later
      "\<lambda>s a. Inr True" "Some ?addr" ?cd] pre calls dup
  show ?thesis
    by (cases "addInvite_route ex_later (\<lambda>s a. Inr True) (Some ''aa'')
                 (Some ?addr) ''2024-01-02 00:00:00'' ?w"; cases "snd (addInvite_route ex_later (\<lambda>s a. Inr True) (Some ''aa'')
                 (Some ?addr) ''2024-01-02 00:00:00'' ?w)") auto
qed

section \<open>Checking an invite\<close>

text \<open>
  Claim C7. For a row of the table with status \<open>used\<close>, the checkInvite route called with
  its secret (and some address) answers 200 with \<open>isUsed = true\<close> and that row, and leaves
  the whole state as it was: the table is unchanged and no \<^verbatim>\<open>eth_call\<close> request is sent.
\<close>

theorem checkInvite_used_short_circuit:
  assumes ok: "table_ok (invites w)" and mem: "invite \<in> set (invites w)"
    and u: "status invite = USED" and sec: "secret invite \<noteq> []" and addr: "address \<noteq> []"
  shows "checkInvite_route v (Some (secret invite)) (Some address) now w
           = (Response 200 (CheckJson True invite), w)"
proof -
  from ok mem have "getInviteBySecret (secret invite) (invites w) = Some invite"
    by (simp add: getInviteBySecret_def find_by_secret table_ok_def)
  with u sec addr show ?thesis
    by (simp add: checkInvite_route_def Let_def body_field_def)
qed

theorem checkInvite_used_short_circuit_witness:
  "table_ok [ex_A, ex_U] \<and> ex_U \<in> set [ex_A, ex_U] \<and> status ex_U = USED
   \<and> checkInvite_route ex_claimed (Some ''dd'') (Some ''0x00000000000000000000000000000000000000d4'')
        ''2024-01-02 00:00:00'' \<lparr>invites = [ex_A, ex_U], eth_calls = 5\<rparr>
      = (Response 200 (CheckJson True ex_U), \<lparr>invites = [ex_A, ex_U], eth_calls = 5\<rparr>)"
proof -
  have ok: "table_ok (invites \<lparr>invites = [ex_A, ex_U], eth_calls = 5\<rparr>)"
    by (simp add: table_ok_def ex_A_def ex_U_def)
  have mem: "ex_U \<in> set (invites \<lparr>invites = [ex_A, ex_U], eth_calls = 5\<rparr>)" by simp
  have u: "status ex_U = USED" and sec: "secret ex_U \<noteq> []" and s: "secret ex_U = ''dd''"
    by (simp_all add: ex_U_def)
  have addr: "''0x00000000000000000000000000000000000000d4'' \<noteq> []" by simp
  from checkInvite_used_short_circuit [OF ok mem u sec addr, of ex_claimed "''2024-01-02 00:00:00''"]
    ok u s
  show ?thesis by simp
qed

lemma getInviteBySecret_after_update:
  "getInviteBySecret sec rows = Some r \<Longrightarrow>
   \<exists>r'. getInviteBySecret sec (updateInviteStatus i st now rows) = Some r'"
  by (induction rows) (auto simp: getInviteBySecret_def updateInviteStatus_def split: if_splits)

lemma checkInvite_route_claimed:
  assumes ok: "table_ok (invites w)" and mem: "invite \<in> set (invites w)"
    and nu: "status invite \<noteq> USED" and sec: "secret invite \<noteq> []" and addr: "address \<noteq> []"
    and chain: "checkInviteOnChain v address (eth_calls w) = (Inr cd, n1)" and cl: "claimed cd"
  shows "checkInvite_route v (Some (secret invite)) (Some address) now w
           = (Response 200 (CheckJson True (invite\<lparr>status := USED, updateDate := now\<rparr>)),
              \<lparr>invites = map (\<lambda>x. if x = invite then invite\<lparr>status := USED, updateDate := now\<rparr>
                                   else x) (invites w),
                eth_calls = n1\<rparr>)"
proof -
  from ok have d: "distinct (map id' (invites w))" and ds: "distinct (map secret (invites w))"
    by (simp_all add: table_ok_def)
  have look: "getInviteBySecret (secret invite) (invites w) = Some invite"
    using ds mem by (simp add: getInviteBySecret_def find_by_secret)
  have mark: "markInviteAsUsed (secret invite) now (invites w)
                = (True, updateInviteStatus (id' invite) USED now (invites w))"
    by (rule markInviteAsUsed_found [OF ok mem])
  have "invite\<lparr>status := USED, updateDate := now\<rparr>
          \<in> set (updateInviteStatus (id' invite) USED now (invites w))"
    using mem by (force simp: updateInviteStatus_eq [OF d mem])
  moreover have "distinct (map secret (updateInviteStatus (id' invite) USED now (invites w)))"
    using ds by simp
  ultimately have again:
    "getInviteBySecret (secret invite) (updateInviteStatus (id' invite) USED now (invites w))
       = Some (invite\<lparr>status := USED, updateDate := now\<rparr>)"
    using find_by_secret [of "updateInviteStatus (id' invite) USED now (invites w)"
        "invite\<lparr>status := USED, updateDate := now\<rparr>"]
    by (simp add: getInviteBySecret_def)
  have "checkInvite_route v (Some (secret invite)) (Some address) now w
           = (Response 200 (CheckJson True (invite\<lparr>status := USED, updateDate := now\<rparr>)),
              \<lparr>invites = updateInviteStatus (id' invite) USED now (invites w), eth_calls = n1\<rparr>)"
    using nu sec addr chain cl
    by (simp add: checkInvite_route_def Let_def body_field_def look mark again)
  then show ?thesis
    by (simp add: updateInviteStatus_eq [OF d mem])
qed

text \<open>
  Claim C9. The checkInvite route moves a row straight from \<open>none\<close> to \<open>used\<close>: when the
  row looked up has status \<open>none\<close> and the oracle reports \<open>claimed = true\<close> for the address
  of the request, the row is marked \<open>used\<close> (no other row changes) and the response reports
  \<open>isUsed = true\<close>. Such a state is reachable: the theorem that follows this one reaches it
  from the empty table by one addInvite request.
\<close>

theorem checkInvite_none_to_used:
  assumes ok: "table_ok (invites w)" and mem: "invite \<in> set (invites w)"
    and none: "status invite = NONE" and sec: "secret invite \<noteq> []" and addr: "address \<noteq> []"
    and chain: "checkInviteOnChain v address (eth_calls w) = (Inr cd, n1)" and cl: "claimed cd"
  shows "checkInvite_route v (Some (secret invite)) (Some address) now w
           = (Response 200 (CheckJson True (invite\<lparr>status := USED, updateDate := now\<rparr>)),
              \<lparr>invites = map (\<lambda>x. if x = invite then invite\<lparr>status := USED, updateDate := now\<rparr>
                                   else x) (invites w),
                eth_calls = n1\<rparr>)"
  using none by (intro checkInvite_route_claimed [OF ok mem _ sec addr chain cl]) simp

theorem checkInvite_none_to_used_witness:
  "serve_all ex_later (\<lambda>s a. Inr True) None
     [AddInvite (Some ''0xc0ffee'') (Some ''0x00000000000000000000000000000000000000a1'')
        ''2024-01-01 00:00:00'']
     \<lparr>invites = [], eth_calls = 0\<rparr>
     = \<lparr>invites = [ex_fresh], eth_calls = 1\<rparr>
   \<and> status ex_fresh = NONE
   \<and> checkInvite_route ex_later (Some ''0xc0ffee'')
        (Some ''0x00000000000000000000000000000000000000a1'') ''2024-01-01 00:00:09''
        \<lparr>invites = [ex_fresh], eth_calls = 1\<rparr>
     = (Response 200
          (CheckJson True (ex_fresh\<lparr>status := USED, updateDate := ''2024-01-01 00:00:09''\<rparr>)),
        \<lparr>invites = [ex_fresh\<lparr>status := USED, updateDate := ''2024-01-01 00:00:09''\<rparr>],
          eth_calls = 2\<rparr>)"
proof -
  let ?w = "\<lparr>invites = [ex_fresh], eth_calls = 1\<rparr>"
  let ?addr = "''0x00000000000000000000000000000000000000a1''"
  let ?cd = "\<lparr>account = ''0x00000000000000000000000000000000000000ee'', claimed = True\<rparr>"
  have reach: "serve_all ex_later (\<lambda>s a. Inr True) None
     [AddInvite (Some ''0xc0ffee'') (Some ?addr) ''2024-01-01 00:00:00'']
     \<lparr>invites = [], eth_calls = 0\<rparr> = ?w"
    by (simp add: route_defs ex_later_def ex_fresh_def)
  have ok: "table_ok (invites ?w)" by (simp add: table_ok_def)
  have mem: "ex_fresh \<in> set (invites ?w)" by simp
  have none: "status ex_fresh = NONE" and sec: "secret ex_fresh \<noteq> []"
    and s: "secret ex_fresh = ''0xc0ffee''"
    by (simp_all add: ex_fresh_def)
  have addr: "?addr \<noteq> []" by simp
  have chain: "checkInviteOnChain ex_later ?addr (eth_calls ?w) = (Inr ?cd, 2)"
    by (simp add: route_defs ex_later_def)
  have cl: "claimed ?cd" by simp
  from checkInvite_none_to_used [OF ok mem none sec addr chain cl, of "''2024-01-01 00:00:09''"]
    reach none s
  show ?thesis by simp
qed

text \<open>
  Claim C10. \<open>checkInviteOnChain\<close> never throws: for every input and every behaviour of
  encoding, call and decoding it returns a value, and whenever the body of its
  \<^verbatim>\<open>try\<close> block raises, that value is the zero address with \<open>claimed = false\<close>.
  Consequently the checkInvite route never answers 500 "Failed to verify invite status
  on-chain".
\<close>

theorem checkInviteOnChain_total:
  "(\<exists>cd n'. checkInviteOnChain v sgnr n = (Inr cd, n'))
   \<and> (\<forall>e n'. checkInviteOnChain_try v sgnr n = (Inl e, n')
         \<longrightarrow> checkInviteOnChain v sgnr n
             = (Inr \<lparr>account = ''0x0000000000000000000000000000000000000000'', claimed = False\<rparr>,
                n'))
   \<and> fst (checkInvite_route v secret_f address_f now w)
       \<noteq> Response 500 (ErrorJson ''Failed to verify invite status on-chain'')"
proof (intro conjI allI impI)
  show "\<exists>cd n'. checkInviteOnChain v sgnr n = (Inr cd, n')"
    by (rule checkInviteOnChain_Inr)
next
  fix e n'
  assume "checkInviteOnChain_try v sgnr n = (Inl e, n')"
  then show "checkInviteOnChain v sgnr n
             = (Inr \<lparr>account = ''0x0000000000000000000000000000000000000000'', claimed = False\<rparr>,
                n')"
    by (simp add: checkInviteOnChain_def not_claimed_def zero_address_def)
next
  obtain cd n1
    where c: "checkInviteOnChain v (body_field address_f) (eth_calls w) = (Inr cd, n1)"
    using checkInviteOnChain_Inr by blast
  show "fst (checkInvite_route v secret_f address_f now w)
       \<noteq> Response 500 (ErrorJson ''Failed to verify invite status on-chain'')"
  proof (cases "getInviteBySecret (body_field secret_f) (invites w)")
    case None
    then show ?thesis by (simp add: checkInvite_route_def Let_def)
  next
    case (Some invite)
    from getInviteBySecret_after_update [OF Some] obtain r'
      where "getInviteBySecret (body_field secret_f)
               (updateInviteStatus (id' invite) USED now (invites w)) = Some r'"
      by blast
    with Some c show ?thesis
      by (simp add: checkInvite_route_def Let_def markInviteAsUsed_def)
  qed
qed

theorem checkInviteOnChain_total_witness:
  "checkInviteOnChain_try ex_down ''0x00000000000000000000000000000000000000a1'' 0
     = (Inl (Error ''fetch failed''), 1)
   \<and> checkInviteOnChain ex_down ''0x00000000000000000000000000000000000000a1'' 0
     = (Inr \<lparr>account = ''0x0000000000000000000000000000000000000000'', claimed = False\<rparr>, 1)
   \<and> fst (checkInvite_route ex_down (Some ''aa'')
             (Some ''0x00000000000000000000000000000000000000a1'') ''2024-01-02 00:00:00''
             \<lparr>invites = [ex_A], eth_calls = 0\<rparr>)
     = Response 200 (CheckJson False ex_A)"
proof -
  have t: "checkInviteOnChain_try ex_down ''0x00000000000000000000000000000000000000a1'' 0
     = (Inl (Error ''fetch failed''), 1)"
    by (simp add: checkInviteOnChain_try_def ex_down_def)
  from checkInviteOnChain_total [of ex_down "''0x00000000000000000000000000000000000000a1''" 0] t
  have "checkInviteOnChain ex_down ''0x00000000000000000000000000000000000000a1'' 0
     = (Inr \<lparr>account = ''0x0000000000000000000000000000000000000000'', claimed = False\<rparr>, 1)"
    by simp
  moreover have "fst (checkInvite_route ex_down (Some ''aa'')
             (Some ''0x00000000000000000000000000000000000000a1'') ''2024-01-02 00:00:00''
             \<lparr>invites = [ex_A], eth_calls = 0\<rparr>)
     = Response 200 (CheckJson False ex_A)"
    by (simp add: route_defs ex_A_def ex_down_def)
  ultimately show ?thesis using t by simp
qed

section \<open>Where the routes fall short of their comments\<close>

text \<open>
  Whatever makes the body of \<open>checkInviteOnChain\<close> raise, the checkInvite route on a row
  that is not yet used answers 200 with \<open>isUsed = false\<close> and leaves the table as it was.
\<close>

lemma checkInvite_route_oracle_error:
  assumes "getInviteBySecret sec (invites w) = Some invite" and "status invite \<noteq> USED"
    and "sec \<noteq> []" and "address \<noteq> []"
    and "checkInviteOnChain_try v address (eth_calls w) = (Inl e, n1)"
  shows "checkInvite_route v (Some sec) (Some address) now w
           = (Response 200 (CheckJson False invite), w\<lparr>eth_calls := n1\<rparr>)"
  using assms
  by (simp add: checkInvite_route_def Let_def body_field_def checkInviteOnChain_def
        not_claimed_def)

text \<open>
  Claim C1. The claim is that an oracle failure during checkInvite is surfaced as a hard
  failure. The route has a \<^verbatim>\<open>catch\<close> clause for it, but \<open>checkInviteOnChain\<close> has already
  turned the failure into "not claimed". In the state with the single pending row \<open>ex_A\<close>
  and a ledger node that fails every request, the oracle call fails, and the route answers
  200 with \<open>isUsed = false\<close>; the row is unchanged.
\<close>

theorem checkInvite_oracle_failure_reports_unused:
  "checkInviteOnChain_try ex_down ''0x00000000000000000000000000000000000000a1'' 0
     = (Inl (Error ''fetch failed''), 1)
   \<and> status ex_A = PENDING
   \<and> checkInvite_route ex_down (Some ''aa'') (Some ''0x00000000000000000000000000000000000000a1'')
      ''2024-01-02 00:00:00'' \<lparr>invites = [ex_A], eth_calls = 0\<rparr>
   = (Response 200 (CheckJson False ex_A), \<lparr>invites = [ex_A], eth_calls = 1\<rparr>)"
  by (simp add: route_defs ex_A_def ex_down_def)

text \<open>
  Claim C2. The claim is that the replacement invite returned after a claimed pending
  invite has itself been reconciled against the oracle. In the state with the two pending
  rows \<open>ex_A\<close> (older) and \<open>ex_B\<close> and an oracle that reports every signer claimed, the
  getInvite route marks \<open>ex_A\<close> used and returns \<open>ex_B\<close>, still pending, after a single
  \<^verbatim>\<open>eth_call\<close> request: \<open>ex_B\<close> is not checked, although the oracle would report it claimed.
\<close>

theorem getInvite_replacement_not_reconciled:
  "getInvite_route ex_claimed ''2024-01-02 00:00:00'' ''2024-01-02 00:00:01'' ''2024-01-02 00:00:02''
       \<lparr>invites = [ex_A, ex_B], eth_calls = 0\<rparr>
   = (Response 200 (InviteJson ex_B),
      \<lparr>invites = [ex_A\<lparr>status := USED, updateDate := ''2024-01-02 00:00:01''\<rparr>, ex_B],
        eth_calls = 1\<rparr>)
   \<and> status ex_B = PENDING
   \<and> fst (checkInviteOnChain ex_claimed (signer ex_B) 1)
       = Inr \<lparr>account = ''0x00000000000000000000000000000000000000ee'', claimed = True\<rparr>"
  by (simp add: route_defs ex_A_def ex_B_def ex_claimed_def)

end
